theory Spec2Isabelle
  imports Complex_Main
begin

section \<open>MicroPython primitives used by mopo.py\<close>

text \<open>
  The module runs on MicroPython. Exceptions are values of \<open>py_error\<close>; a call that
  mutates an object returns the Python result (or the exception) together with the
  object as the call left it: an exception raised after a mutation does not undo it.
\<close>

datatype py_error = IndexError | ZeroDivisionError | TypeError | AttributeError | Exception

type_synonym 'a result = "py_error + 'a"

text \<open>
  \<open>utime.ticks_ms()\<close> counts milliseconds modulo \<open>TICKS_PERIOD\<close> (a power of two,
  \<open>2 ^ 30\<close> on the 32-bit ports the pin numbers of the module belong to), and
  \<open>utime.ticks_diff(t1, t2)\<close> is the signed difference
  \<open>((t1 - t2 + TICKS_PERIOD // 2) & (TICKS_PERIOD - 1)) - TICKS_PERIOD // 2\<close>.
  Masking with \<open>TICKS_PERIOD - 1\<close> is \<open>mod TICKS_PERIOD\<close>. The clock reading of
  an interrupt handler is the handler's first argument in this model.
\<close>

definition TICKS_PERIOD :: int where
  "TICKS_PERIOD = 1073741824"

definition ticks_diff :: "int \<Rightarrow> int \<Rightarrow> int" where
  "ticks_diff t1 t2 =
     ((t1 - t2 + TICKS_PERIOD div 2) mod TICKS_PERIOD) - TICKS_PERIOD div 2"

text \<open>
  Indexing an \<open>array.array\<close>: a negative index counts from the end, an index out of
  range raises \<open>IndexError\<close>.
\<close>

definition array_index :: "'a list \<Rightarrow> int \<Rightarrow> nat result" where
  "array_index xs i =
     (if 0 \<le> i \<and> i < int (length xs) then Inr (nat i)
      else if i < 0 \<and> - int (length xs) \<le> i then Inr (nat (int (length xs) + i))
      else Inl IndexError)"

definition array_get :: "'a list \<Rightarrow> int \<Rightarrow> 'a result" where
  "array_get xs i =
     (case array_index xs i of Inl e \<Rightarrow> Inl e | Inr j \<Rightarrow> Inr (xs ! j))"

definition array_set :: "'a list \<Rightarrow> int \<Rightarrow> 'a \<Rightarrow> 'a list result" where
  "array_set xs i v =
     (case array_index xs i of Inl e \<Rightarrow> Inl e | Inr j \<Rightarrow> Inr (xs[j := v]))"

text \<open>
  Python's \<open>/\<close> is true division: the result is a float, and a zero divisor raises
  \<open>ZeroDivisionError\<close>, for a float divisor as for an integer one. Floats are
  modelled by the reals: rounding is not modelled.
\<close>

definition truediv :: "real \<Rightarrow> real \<Rightarrow> real result" where
  "truediv a b = (if b = 0 then Inl ZeroDivisionError else Inr (a / b))"

section \<open>class Rpm\<close>

record Rpm =
  sparks :: "int list"
  no_sparks :: int
  prev_spark_ms :: int
  spark_write_index :: int
  spark_read_index :: int
  spark_count :: nat
  spark_overflow :: nat
  spark_disqualified :: nat
  this_spark_ms :: int

text \<open>
  The counters start at 0 and are only ever incremented, and \<open>spark_count\<close> is
  decremented only inside \<open>while self.spark_count\<close>, that is while it is not 0:
  they are natural numbers. The indices are integers: the write index starts at -1.
\<close>

definition Rpm_ARRAYSIZE :: int where
  "Rpm_ARRAYSIZE = 20"

definition Rpm_init :: Rpm where
  "Rpm_init =
     \<lparr> sparks = replicate (nat Rpm_ARRAYSIZE) 0,
       no_sparks = 0,
       prev_spark_ms = 0,
       spark_write_index = -1,
       spark_read_index = 0,
       spark_count = 0,
       spark_overflow = 0,
       spark_disqualified = 0,
       this_spark_ms = 0 \<rparr>"

text \<open>\<open>Rpm.cb_spark\<close>, the interrupt handler; \<open>now\<close> is what \<open>utime.ticks_ms()\<close> returns.\<close>

definition cb_spark :: "int \<Rightarrow> Rpm \<Rightarrow> unit result \<times> Rpm" where
  "cb_spark now s0 =
     (let s = s0\<lparr>this_spark_ms := now\<rparr> in
      if spark_write_index s = -1 then
        (let s1 = s\<lparr>spark_write_index := 0\<rparr> in
         case array_set (sparks s1) (spark_write_index s1) (this_spark_ms s1) of
           Inl e \<Rightarrow> (Inl e, s1)
         | Inr a \<Rightarrow> (Inr (), s1\<lparr>sparks := a, spark_count := spark_count s1 + 1\<rparr>))
      else
        (case array_get (sparks s) (spark_write_index s) of
           Inl e \<Rightarrow> (Inl e, s)
         | Inr last_ms \<Rightarrow>
             if ticks_diff (this_spark_ms s) last_ms > 4 then
               (if int (spark_count s) \<le> Rpm_ARRAYSIZE then
                  (let s1 = s\<lparr>spark_write_index :=
                                 (spark_write_index s + 1) mod Rpm_ARRAYSIZE\<rparr> in
                   case array_set (sparks s1) (spark_write_index s1) (this_spark_ms s1) of
                     Inl e \<Rightarrow> (Inl e, s1)
                   | Inr a \<Rightarrow>
                       (Inr (), s1\<lparr>sparks := a, spark_count := spark_count s1 + 1\<rparr>))
                else (Inr (), s\<lparr>spark_overflow := spark_overflow s + 1\<rparr>))
             else (Inr (), s\<lparr>spark_disqualified := spark_disqualified s + 1\<rparr>)))"

text \<open>
  The loop \<open>while self.spark_count\<close> of \<open>Rpm.avg\<close>; \<open>acc\<close> is the local
  \<open>spark_intervals_ms\<close>.
\<close>

function spark_loop :: "Rpm \<Rightarrow> int \<Rightarrow> int result \<times> Rpm" where
  "spark_loop s acc =
     (if spark_count s = 0 then (Inr acc, s)
      else
        (case array_get (sparks s) (spark_read_index s) of
           Inl e \<Rightarrow> (Inl e, s)
         | Inr latest_spark_ms \<Rightarrow>
             spark_loop
               (s\<lparr>spark_count := spark_count s - 1,
                  spark_read_index := (spark_read_index s + 1) mod Rpm_ARRAYSIZE,
                  prev_spark_ms := latest_spark_ms\<rparr>)
               (acc + ticks_diff latest_spark_ms (prev_spark_ms s))))"
  by pat_completeness auto
termination
  by (relation "measure (\<lambda>(s, acc). spark_count s)") auto

declare spark_loop.simps [simp del]

text \<open>
  \<open>Rpm.avg\<close>. \<open>machine.disable_irq\<close> and \<open>enable_irq\<close> make the loop atomic with
  respect to the handler; they change nothing else.
\<close>

definition avg :: "Rpm \<Rightarrow> real result \<times> Rpm" where
  "avg s =
     (if spark_count s > 0 then
        (let rounds = spark_count s in
         case spark_loop s 0 of
           (Inl e, s') \<Rightarrow> (Inl e, s')
         | (Inr spark_intervals_ms, s') \<Rightarrow>
             (case truediv (real_of_int spark_intervals_ms) (real rounds) of
                Inl e \<Rightarrow> (Inl e, s')
              | Inr avg_spark_interval_ms \<Rightarrow>
                  (case truediv (real rounds * 1000) avg_spark_interval_ms of
                     Inl e \<Rightarrow> (Inl e, s')
                   | Inr q \<Rightarrow> (Inr (q * 60), s'))))
      else (Inr 0, s))"

text \<open>
  The producer and the consumer of an \<open>Rpm\<close>: interrupts (each with its clock reading)
  and calls of \<open>avg\<close> by the polling loop, in the order they happen. The state a call
  leaves is kept whatever the call returned.
\<close>

datatype meter_event = Edge int | Drain

fun rpm_run :: "meter_event list \<Rightarrow> Rpm \<Rightarrow> Rpm" where
  "rpm_run [] s = s"
| "rpm_run (Edge t # es) s = rpm_run es (snd (cb_spark t s))"
| "rpm_run (Drain # es) s = rpm_run es (snd (avg s))"

section \<open>class Speed\<close>

record Speed =
  halls :: "int list"
  hall_write_index :: int
  hall_read_index :: int
  hall_count :: nat
  hall_overflow :: nat
  hall_disqualified :: nat
  hall_total :: int
  this_hall_ms :: int
  prev_hall_ms :: int
  no_halls :: nat
  dist :: real

definition Speed_ARRAYSIZE :: int where
  "Speed_ARRAYSIZE = 10"

text \<open>
  The fields \<open>Speed.__init__\<close> sets before it looks at \<open>hall_tick_dist_mm\<close>, with the
  distance \<open>d\<close> it stores last.
\<close>

definition Speed_fields :: "real \<Rightarrow> Speed" where
  "Speed_fields d =
     \<lparr> halls = replicate (nat Speed_ARRAYSIZE) 0,
       hall_write_index = -1,
       hall_read_index = 0,
       hall_count = 0,
       hall_overflow = 0,
       hall_disqualified = 0,
       hall_total = 0,
       this_hall_ms = 0,
       prev_hall_ms = 0,
       no_halls = 0,
       dist = d \<rparr>"

definition Speed_init :: "real option \<Rightarrow> Speed result" where
  "Speed_init hall_tick_dist_mm =
     (case hall_tick_dist_mm of
        None \<Rightarrow> Inl Exception
      | Some d \<Rightarrow> Inr (Speed_fields d))"

text \<open>\<open>Speed.cb_hall\<close>, the interrupt handler.\<close>

definition cb_hall :: "int \<Rightarrow> Speed \<Rightarrow> unit result \<times> Speed" where
  "cb_hall now s0 =
     (let s = s0\<lparr>this_hall_ms := now, hall_total := hall_total s0 + 1\<rparr> in
      if hall_write_index s = -1 then
        (let s1 = s\<lparr>hall_write_index := 0\<rparr> in
         case array_set (halls s1) (hall_write_index s1) (this_hall_ms s1) of
           Inl e \<Rightarrow> (Inl e, s1)
         | Inr a \<Rightarrow> (Inr (), s1\<lparr>halls := a, hall_count := hall_count s1 + 1\<rparr>))
      else
        (case array_get (halls s) (hall_write_index s) of
           Inl e \<Rightarrow> (Inl e, s)
         | Inr last_ms \<Rightarrow>
             if ticks_diff (this_hall_ms s) last_ms > 36 then
               (if int (hall_count s) \<le> Speed_ARRAYSIZE then
                  (let s1 = s\<lparr>hall_write_index :=
                                 (hall_write_index s + 1) mod Speed_ARRAYSIZE\<rparr> in
                   case array_set (halls s1) (hall_write_index s1) (this_hall_ms s1) of
                     Inl e \<Rightarrow> (Inl e, s1)
                   | Inr a \<Rightarrow>
                       (Inr (), s1\<lparr>halls := a, hall_count := hall_count s1 + 1\<rparr>))
                else (Inr (), s\<lparr>hall_overflow := hall_overflow s + 1\<rparr>))
             else
               (Inr (), s\<lparr>hall_disqualified := hall_disqualified s + 1,
                           hall_total := hall_total s - 1\<rparr>)))"

text \<open>The loop \<open>while self.hall_count\<close> of \<open>Speed.get_avg\<close>.\<close>

function hall_loop :: "Speed \<Rightarrow> int \<Rightarrow> int result \<times> Speed" where
  "hall_loop s acc =
     (if hall_count s = 0 then (Inr acc, s)
      else
        (case array_get (halls s) (hall_read_index s) of
           Inl e \<Rightarrow> (Inl e, s)
         | Inr latest_hall_ms \<Rightarrow>
             hall_loop
               (s\<lparr>hall_count := hall_count s - 1,
                  hall_read_index := (hall_read_index s + 1) mod Speed_ARRAYSIZE,
                  prev_hall_ms := latest_hall_ms\<rparr>)
               (acc + ticks_diff latest_hall_ms (prev_hall_ms s))))"
  by pat_completeness auto
termination
  by (relation "measure (\<lambda>(s, acc). hall_count s)") auto

declare hall_loop.simps [simp del]

text \<open>\<open>Speed.get_avg\<close>.\<close>

definition get_avg :: "Speed \<Rightarrow> real result \<times> Speed" where
  "get_avg s =
     (if hall_count s > 0 then
        (let hall_tics = hall_count s in
         case hall_loop s 0 of
           (Inl e, s') \<Rightarrow> (Inl e, s')
         | (Inr hall_intervals_ms, s') \<Rightarrow>
             (case truediv (real_of_int hall_intervals_ms) (real hall_tics) of
                Inl e \<Rightarrow> (Inl e, s')
              | Inr avg_hall_interval_ms \<Rightarrow>
                  (case truediv (real hall_tics * dist s' * 10) avg_hall_interval_ms of
                     Inl e \<Rightarrow> (Inl e, s')
                   | Inr q \<Rightarrow>
                       (case truediv q 36 of
                          Inl e \<Rightarrow> (Inl e, s')
                        | Inr speed \<Rightarrow> (Inr speed, s')))))
      else (Inr 0, s\<lparr>no_halls := no_halls s + 1\<rparr>))"

fun speed_run :: "meter_event list \<Rightarrow> Speed \<Rightarrow> Speed" where
  "speed_run [] s = s"
| "speed_run (Edge t # es) s = speed_run es (snd (cb_hall t s))"
| "speed_run (Drain # es) s = speed_run es (snd (get_avg s))"

section \<open>class Button\<close>

text \<open>
  A \<open>machine.Timer\<close> is modelled by its last configuration: \<open>init\<close> with a period
  and a callback, or \<open>deinit\<close>. The level \<open>self.button.value()\<close> reads is an argument
  of the callback that reads it.
\<close>

datatype timer_callback = Cb_button_debounce | Cb_button_series

datatype timer = Timer_idle | ONE_SHOT int timer_callback | PERIODIC int timer_callback

record Button =
  main_loop_sleep :: int
  button_press_time_ms :: int
  button_press_count :: int
  button_debounce_timer :: timer
  button_waiting_bounce :: bool
  button_waiting_more_clicks :: bool
  button_series_click_timer :: timer
  button_series_click_prev_value :: int

definition NORMAL_SLEEP :: int where "NORMAL_SLEEP = 300"
definition BUTTON_CHECK_SLEEP :: int where "BUTTON_CHECK_SLEEP = 50"
definition BUTTON_BOUNCE_DELAY_MS :: int where "BUTTON_BOUNCE_DELAY_MS = 50"
definition BUTTON_SERIES_PRESS_DELAY_MS :: int where "BUTTON_SERIES_PRESS_DELAY_MS = 200"
definition BUTTON_DOWN :: int where "BUTTON_DOWN = 0"
definition BUTTON_UP :: int where "BUTTON_UP = 1"

definition Button_init :: Button where
  "Button_init =
     \<lparr> main_loop_sleep = NORMAL_SLEEP,
       button_press_time_ms = 0,
       button_press_count = 0,
       button_debounce_timer = Timer_idle,
       button_waiting_bounce = False,
       button_waiting_more_clicks = False,
       button_series_click_timer = Timer_idle,
       button_series_click_prev_value = 0 \<rparr>"

text \<open>
  \<open>Button.cb_button_series\<close>: the timer it is called with, and deinitialises, is
  \<open>button_series_click_timer\<close>, the only timer given this callback.
\<close>

definition cb_button_series :: "int \<Rightarrow> Button \<Rightarrow> Button" where
  "cb_button_series level s =
     (if level = BUTTON_DOWN then
        (let s1 = (if button_series_click_prev_value s = BUTTON_UP
                   then s\<lparr>button_press_count := button_press_count s + 1\<rparr> else s)
         in s1\<lparr>button_series_click_prev_value := BUTTON_DOWN\<rparr>)
      else
        (if button_series_click_prev_value s = BUTTON_DOWN
         then s\<lparr>button_series_click_prev_value := BUTTON_UP\<rparr>
         else s\<lparr>button_series_click_timer := Timer_idle,
                 button_waiting_more_clicks := False,
                 main_loop_sleep := NORMAL_SLEEP\<rparr>))"

text \<open>\<open>Button.cb_button_debounce\<close>.\<close>

definition cb_button_debounce :: "int \<Rightarrow> Button \<Rightarrow> Button" where
  "cb_button_debounce level s =
     (let s1 = (if level = BUTTON_DOWN then
                  s\<lparr>button_waiting_bounce := False,
                    button_press_count := 1,
                    button_waiting_more_clicks := True,
                    button_series_click_prev_value := BUTTON_DOWN,
                    button_series_click_timer :=
                      PERIODIC BUTTON_SERIES_PRESS_DELAY_MS Cb_button_series\<rparr>
                else s\<lparr>main_loop_sleep := NORMAL_SLEEP\<rparr>)
      in s1\<lparr>button_waiting_bounce := False\<rparr>)"

text \<open>\<open>Button.cb_button\<close>, the pin interrupt; \<open>now\<close> is the clock reading.\<close>

definition cb_button :: "int \<Rightarrow> Button \<Rightarrow> Button" where
  "cb_button now s =
     (if \<not> (button_waiting_bounce s \<or> button_waiting_more_clicks s) then
        s\<lparr>button_waiting_bounce := True,
          button_press_time_ms := now,
          main_loop_sleep := BUTTON_CHECK_SLEEP,
          button_debounce_timer := ONE_SHOT BUTTON_BOUNCE_DELAY_MS Cb_button_debounce\<rparr>
      else s)"

text \<open>\<open>Button.pressed\<close>: the value returned and the button afterwards.\<close>

definition pressed :: "Button \<Rightarrow> int \<times> Button" where
  "pressed s =
     (if button_waiting_more_clicks s then (-1, s)
      else (button_press_count s, s\<lparr>button_press_count := 0\<rparr>))"

section \<open>class Limiter\<close>

text \<open>
  \<open>self.ign\<close> is a \<open>machine.Pin\<close> in output mode (its number and level) or a
  \<open>machine.PWM\<close> (the number of its pin, and the frequency and duty once set). A
  \<open>Pin\<close> has no \<open>freq\<close>, \<open>duty\<close> or \<open>deinit\<close>: calling one raises
  \<open>AttributeError\<close>. Constructing a \<open>Pin\<close> or a \<open>PWM\<close> is taken to succeed.
\<close>

datatype ign_output = Pin_OUT int bool | PWM int "int option" "int option"

definition ign_freq :: "ign_output \<Rightarrow> int \<Rightarrow> ign_output result" where
  "ign_freq g f = (case g of Pin_OUT p v \<Rightarrow> Inl AttributeError
                           | PWM p fr du \<Rightarrow> Inr (PWM p (Some f) du))"

definition ign_duty :: "ign_output \<Rightarrow> int \<Rightarrow> ign_output result" where
  "ign_duty g d = (case g of Pin_OUT p v \<Rightarrow> Inl AttributeError
                           | PWM p fr du \<Rightarrow> Inr (PWM p fr (Some d)))"

definition ign_deinit :: "ign_output \<Rightarrow> unit result" where
  "ign_deinit g = (case g of Pin_OUT p v \<Rightarrow> Inl AttributeError
                           | PWM p fr du \<Rightarrow> Inr ())"

record Limiter =
  pin :: int
  ign :: ign_output
  mode :: int

definition FREQ :: int where "FREQ = 250"
definition LIMIT_DUTY :: int where "LIMIT_DUTY = 128"
definition LIMP_DUTY :: int where "LIMP_DUTY = 768"
definition UNLIMITED :: int where "UNLIMITED = 0"
definition LIMITED :: int where "LIMITED = 1"
definition LIMP :: int where "LIMP = 2"

definition LIMIT_RPM_HIGH :: real where "LIMIT_RPM_HIGH = 6000"
definition LIMIT_RPM_LOW :: real where "LIMIT_RPM_LOW = 5800"
definition LIMP_RPM_HIGH :: real where "LIMP_RPM_HIGH = 7000"
definition LIMP_RPM_LOW :: real where "LIMP_RPM_LOW = 6800"
definition LIMIT_SPEED_HIGH :: real where "LIMIT_SPEED_HIGH = 42"
definition LIMIT_SPEED_LOW :: real where "LIMIT_SPEED_LOW = 40"
definition LIMP_SPEED_HIGH :: real where "LIMP_SPEED_HIGH = 50"
definition LIMP_SPEED_LOW :: real where "LIMP_SPEED_LOW = 48"

text \<open>\<open>Limiter.limit\<close>.\<close>

definition limit :: "Limiter \<Rightarrow> Limiter result" where
  "limit l =
     (case (if mode l = UNLIMITED
            then (case ign_freq (PWM (pin l) None None) FREQ of
                    Inl e \<Rightarrow> Inl e
                  | Inr g \<Rightarrow> Inr (l\<lparr>ign := g\<rparr>))
            else Inr l) of
        Inl e \<Rightarrow> Inl e
      | Inr l1 \<Rightarrow>
          (case ign_duty (ign l1) LIMIT_DUTY of
             Inl e \<Rightarrow> Inl e
           | Inr g \<Rightarrow> Inr (l1\<lparr>ign := g, mode := LIMITED\<rparr>)))"

text \<open>\<open>Limiter.limp\<close>; the pin of its PWM is the literal 15, not \<open>self.pin\<close>.\<close>

definition limp :: "Limiter \<Rightarrow> Limiter result" where
  "limp l =
     (case (if mode l = UNLIMITED
            then (case ign_freq (PWM 15 None None) FREQ of
                    Inl e \<Rightarrow> Inl e
                  | Inr g \<Rightarrow> Inr (l\<lparr>ign := g\<rparr>))
            else Inr l) of
        Inl e \<Rightarrow> Inl e
      | Inr l1 \<Rightarrow>
          (case ign_duty (ign l1) LIMP_DUTY of
             Inl e \<Rightarrow> Inl e
           | Inr g \<Rightarrow> Inr (l1\<lparr>ign := g, mode := LIMP\<rparr>)))"

text \<open>\<open>Limiter.free\<close>.\<close>

definition free :: "Limiter \<Rightarrow> Limiter result" where
  "free l =
     (case (if mode l \<noteq> UNLIMITED
            then (case ign_deinit (ign l) of
                    Inl e \<Rightarrow> Inl e
                  | Inr u \<Rightarrow> Inr (l\<lparr>ign := Pin_OUT (pin l) False\<rparr>))
            else Inr l) of
        Inl e \<Rightarrow> Inl e
      | Inr l1 \<Rightarrow> Inr (l1\<lparr>mode := UNLIMITED\<rparr>))"

definition get_mode :: "Limiter \<Rightarrow> int" where
  "get_mode l = mode l"

text \<open>
  Calling a bound method that declares \<open>n_params\<close> parameters (\<open>self\<close> among them)
  with \<open>n_args\<close> arguments: Python passes the object first, and raises \<open>TypeError\<close>
  before the body runs unless the counts agree.
\<close>

definition call_bound :: "nat \<Rightarrow> ('o \<Rightarrow> 'r result) \<Rightarrow> 'o \<Rightarrow> nat \<Rightarrow> 'r result" where
  "call_bound n_params f obj n_args =
     (if Suc n_args = n_params then f obj else Inl TypeError)"

text \<open>
  \<open>Limiter.__init__(pin, mode)\<close>; \<open>mode_arg\<close> is \<open>None\<close> or an integer (any other
  value compares unequal to both constants, as an integer other than 1 and 2 does). Its calls
  \<open>self.limit(self)\<close> and \<open>self.limp(self)\<close> pass one argument to methods that
  declare \<open>self\<close> alone.
\<close>

definition Limiter_init :: "int \<Rightarrow> int option \<Rightarrow> Limiter result" where
  "Limiter_init pin_arg mode_arg =
     (let l = \<lparr> pin = pin_arg, ign = Pin_OUT pin_arg False, mode = UNLIMITED \<rparr> in
      case mode_arg of
        None \<Rightarrow> Inr l
      | Some m \<Rightarrow>
          if m = LIMITED then call_bound 1 limit l 1
          else if m = LIMP then call_bound 1 limp l 1
          else Inr l)"

text \<open>
  The mode update of one cycle of \<open>show\<close>: \<open>mode = limiter.get_mode()\<close> read at the
  top of the cycle, then the two \<open>if\<close>/\<open>elif\<close> statements on \<open>rpm_avg\<close> and
  \<open>kmh\<close>. Both statements test the \<open>mode\<close> read at the top.
\<close>

definition show_limiter :: "Limiter \<Rightarrow> real \<Rightarrow> real \<Rightarrow> Limiter result" where
  "show_limiter l rpm_avg kmh =
     (let mode0 = get_mode l in
      case (if mode0 \<noteq> UNLIMITED \<and> rpm_avg < LIMIT_RPM_LOW \<and> kmh < LIMIT_SPEED_LOW
            then free l
            else if mode0 \<noteq> LIMP \<and> (rpm_avg > LIMP_RPM_HIGH \<or> kmh > LIMP_SPEED_HIGH)
            then limp l
            else Inr l) of
        Inl e \<Rightarrow> Inl e
      | Inr l1 \<Rightarrow>
          (if mode0 = UNLIMITED \<and> (rpm_avg > LIMIT_RPM_HIGH \<or> kmh > LIMIT_SPEED_HIGH)
           then limit l1
           else if mode0 = LIMP \<and> rpm_avg < LIMP_RPM_LOW \<and> kmh < LIMP_SPEED_LOW
           then limit l1
           else Inr l1))"

text \<open>
  \<open>limiter = Limiter()\<close> in \<open>show\<close>: the default pin 15 and no mode argument. This
  is the limiter that call constructs, and the one \<open>limit\<close> makes of it.
\<close>

definition Limiter_default :: Limiter where
  "Limiter_default = \<lparr> pin = 15, ign = Pin_OUT 15 False, mode = UNLIMITED \<rparr>"

definition Limiter_limited :: Limiter where
  "Limiter_limited =
     \<lparr> pin = 15, ign = PWM 15 (Some FREQ) (Some LIMIT_DUTY), mode = LIMITED \<rparr>"

definition Limiter_limping :: Limiter where
  "Limiter_limping =
     \<lparr> pin = 15, ign = PWM 15 (Some FREQ) (Some LIMP_DUTY), mode = LIMP \<rparr>"

text \<open>
  Successive cycles of \<open>show\<close> on the readings \<open>(rpm_avg, kmh)\<close> of each cycle: the
  limiter after each cycle, or the first exception (which ends \<open>show\<close>).
\<close>

fun limiter_run :: "Limiter \<Rightarrow> (real \<times> real) list \<Rightarrow> Limiter list result" where
  "limiter_run l [] = Inr []"
| "limiter_run l (x # xs) =
     (case show_limiter l (fst x) (snd x) of
        Inl e \<Rightarrow> Inl e
      | Inr l' \<Rightarrow>
          (case limiter_run l' xs of
             Inl e \<Rightarrow> Inl e
           | Inr ls \<Rightarrow> Inr (l' # ls)))"

section \<open>Predicates and inputs of the statements\<close>

text \<open>
  The buffer of a meter has the length its constructor gave it, the read index is one of
  its positions, and the write index is one of its positions or still -1.
\<close>

definition rpm_ok :: "Rpm \<Rightarrow> bool" where
  "rpm_ok s =
     (int (length (sparks s)) = Rpm_ARRAYSIZE \<and>
      -1 \<le> spark_write_index s \<and> spark_write_index s < Rpm_ARRAYSIZE \<and>
      0 \<le> spark_read_index s \<and> spark_read_index s < Rpm_ARRAYSIZE)"

definition speed_ok :: "Speed \<Rightarrow> bool" where
  "speed_ok s =
     (int (length (halls s)) = Speed_ARRAYSIZE \<and>
      -1 \<le> hall_write_index s \<and> hall_write_index s < Speed_ARRAYSIZE \<and>
      0 \<le> hall_read_index s \<and> hall_read_index s < Speed_ARRAYSIZE)"

text \<open>\<open>edges_from t d n\<close>: \<open>n\<close> interrupts, the first at time \<open>t\<close>, each \<open>d\<close> ms after the one before.\<close>

primrec edges_from :: "int \<Rightarrow> int \<Rightarrow> nat \<Rightarrow> meter_event list" where
  "edges_from t d 0 = []"
| "edges_from t d (Suc n) = Edge t # edges_from (t + d) d n"

section \<open>Facts about the primitives\<close>

lemmas button_consts =
  NORMAL_SLEEP_def BUTTON_CHECK_SLEEP_def BUTTON_BOUNCE_DELAY_MS_def
  BUTTON_SERIES_PRESS_DELAY_MS_def BUTTON_DOWN_def BUTTON_UP_def

lemmas limiter_consts =
  FREQ_def LIMIT_DUTY_def LIMP_DUTY_def UNLIMITED_def LIMITED_def LIMP_def
  LIMIT_RPM_HIGH_def LIMIT_RPM_LOW_def LIMP_RPM_HIGH_def LIMP_RPM_LOW_def
  LIMIT_SPEED_HIGH_def LIMIT_SPEED_LOW_def LIMP_SPEED_HIGH_def LIMP_SPEED_LOW_def

lemma ticks_diff_small:
  "- 536870912 \<le> a - b \<Longrightarrow> a - b < 536870912 \<Longrightarrow> ticks_diff a b = a - b"
  by (simp add: ticks_diff_def TICKS_PERIOD_def)

lemma array_index_in_range:
  "0 \<le> i \<Longrightarrow> i < int (length xs) \<Longrightarrow> array_index xs i = Inr (nat i)"
  by (simp add: array_index_def)

lemma array_get_in_range:
  "0 \<le> i \<Longrightarrow> i < int (length xs) \<Longrightarrow> array_get xs i = Inr (xs ! nat i)"
  by (simp add: array_get_def array_index_in_range)

lemma array_set_in_range:
  "0 \<le> i \<Longrightarrow> i < int (length xs) \<Longrightarrow> array_set xs i v = Inr (xs[nat i := v])"
  by (simp add: array_set_def array_index_in_range)

section \<open>The rate meters\<close>

subsection \<open>One interrupt\<close>

text \<open>
  What \<open>cb_spark\<close> does in each of its four branches, on a meter whose buffer and
  indices are as the constructor and the handler leave them: no indexing raises.
\<close>

lemma cb_spark_first:
  assumes "rpm_ok s" "spark_write_index s = -1"
  shows "cb_spark t s =
     (Inr (), s\<lparr>this_spark_ms := t, spark_write_index := 0,
                sparks := (sparks s)[0 := t], spark_count := spark_count s + 1\<rparr>)"
  using assms
  by (simp add: cb_spark_def rpm_ok_def Rpm_ARRAYSIZE_def array_set_in_range)

lemma cb_spark_bounce:
  assumes "rpm_ok s" "spark_write_index s \<noteq> -1"
    "ticks_diff t (sparks s ! nat (spark_write_index s)) \<le> 4"
  shows "cb_spark t s =
     (Inr (), s\<lparr>this_spark_ms := t, spark_disqualified := spark_disqualified s + 1\<rparr>)"
  using assms
  by (simp add: cb_spark_def rpm_ok_def Rpm_ARRAYSIZE_def array_get_in_range)

lemma cb_spark_overflow:
  assumes "rpm_ok s" "spark_write_index s \<noteq> -1"
    "ticks_diff t (sparks s ! nat (spark_write_index s)) > 4"
    "int (spark_count s) > Rpm_ARRAYSIZE"
  shows "cb_spark t s =
     (Inr (), s\<lparr>this_spark_ms := t, spark_overflow := spark_overflow s + 1\<rparr>)"
  using assms
  by (simp add: cb_spark_def rpm_ok_def Rpm_ARRAYSIZE_def array_get_in_range)

lemma cb_spark_accept:
  assumes "rpm_ok s" "spark_write_index s \<noteq> -1"
    "ticks_diff t (sparks s ! nat (spark_write_index s)) > 4"
    "int (spark_count s) \<le> Rpm_ARRAYSIZE"
  shows "cb_spark t s =
     (Inr (), s\<lparr>this_spark_ms := t,
                spark_write_index := (spark_write_index s + 1) mod Rpm_ARRAYSIZE,
                sparks := (sparks s)[nat ((spark_write_index s + 1) mod Rpm_ARRAYSIZE) := t],
                spark_count := spark_count s + 1\<rparr>)"
  using assms
  by (simp add: cb_spark_def rpm_ok_def Rpm_ARRAYSIZE_def array_get_in_range array_set_in_range)

lemma cb_spark_ok:
  assumes "rpm_ok s"
  shows "fst (cb_spark t s) = Inr () \<and> rpm_ok (snd (cb_spark t s)) \<and>
         0 \<le> spark_write_index (snd (cb_spark t s))"
proof (cases "spark_write_index s = -1")
  case True
  with assms show ?thesis
    by (simp add: cb_spark_first) (simp add: rpm_ok_def Rpm_ARRAYSIZE_def)
next
  case False
  note nf = this
  show ?thesis
  proof (cases "ticks_diff t (sparks s ! nat (spark_write_index s)) > 4")
    case False
    with assms nf show ?thesis
      by (simp add: cb_spark_bounce) (simp add: rpm_ok_def)
  next
    case True
    note acc = this
    show ?thesis
    proof (cases "int (spark_count s) \<le> Rpm_ARRAYSIZE")
      case True
      with assms nf acc show ?thesis
        by (simp add: cb_spark_accept) (simp add: rpm_ok_def Rpm_ARRAYSIZE_def)
    next
      case False
      with assms nf acc show ?thesis
        by (simp add: cb_spark_overflow) (simp add: rpm_ok_def)
    qed
  qed
qed

text \<open>The same for \<open>cb_hall\<close>, with its threshold of 36 ms and its running total.\<close>

lemma cb_hall_first:
  assumes "speed_ok s" "hall_write_index s = -1"
  shows "cb_hall t s =
     (Inr (), s\<lparr>this_hall_ms := t, hall_total := hall_total s + 1, hall_write_index := 0,
                halls := (halls s)[0 := t], hall_count := hall_count s + 1\<rparr>)"
  using assms
  by (simp add: cb_hall_def speed_ok_def Speed_ARRAYSIZE_def array_set_in_range)

lemma cb_hall_bounce:
  assumes "speed_ok s" "hall_write_index s \<noteq> -1"
    "ticks_diff t (halls s ! nat (hall_write_index s)) \<le> 36"
  shows "cb_hall t s =
     (Inr (), s\<lparr>this_hall_ms := t, hall_disqualified := hall_disqualified s + 1\<rparr>)"
  using assms
  by (simp add: cb_hall_def speed_ok_def Speed_ARRAYSIZE_def array_get_in_range)

lemma cb_hall_overflow:
  assumes "speed_ok s" "hall_write_index s \<noteq> -1"
    "ticks_diff t (halls s ! nat (hall_write_index s)) > 36"
    "int (hall_count s) > Speed_ARRAYSIZE"
  shows "cb_hall t s =
     (Inr (), s\<lparr>this_hall_ms := t, hall_total := hall_total s + 1,
                hall_overflow := hall_overflow s + 1\<rparr>)"
  using assms
  by (simp add: cb_hall_def speed_ok_def Speed_ARRAYSIZE_def array_get_in_range)

lemma cb_hall_accept:
  assumes "speed_ok s" "hall_write_index s \<noteq> -1"
    "ticks_diff t (halls s ! nat (hall_write_index s)) > 36"
    "int (hall_count s) \<le> Speed_ARRAYSIZE"
  shows "cb_hall t s =
     (Inr (), s\<lparr>this_hall_ms := t, hall_total := hall_total s + 1,
                hall_write_index := (hall_write_index s + 1) mod Speed_ARRAYSIZE,
                halls := (halls s)[nat ((hall_write_index s + 1) mod Speed_ARRAYSIZE) := t],
                hall_count := hall_count s + 1\<rparr>)"
  using assms
  by (simp add: cb_hall_def speed_ok_def Speed_ARRAYSIZE_def array_get_in_range
      array_set_in_range)

lemma cb_hall_ok:
  assumes "speed_ok s"
  shows "fst (cb_hall t s) = Inr () \<and> speed_ok (snd (cb_hall t s)) \<and>
         0 \<le> hall_write_index (snd (cb_hall t s))"
proof (cases "hall_write_index s = -1")
  case True
  with assms show ?thesis
    by (simp add: cb_hall_first) (simp add: speed_ok_def Speed_ARRAYSIZE_def)
next
  case False
  note nf = this
  show ?thesis
  proof (cases "ticks_diff t (halls s ! nat (hall_write_index s)) > 36")
    case False
    with assms nf show ?thesis
      by (simp add: cb_hall_bounce) (simp add: speed_ok_def)
  next
    case True
    note acc = this
    show ?thesis
    proof (cases "int (hall_count s) \<le> Speed_ARRAYSIZE")
      case True
      with assms nf acc show ?thesis
        by (simp add: cb_hall_accept) (simp add: speed_ok_def Speed_ARRAYSIZE_def)
    next
      case False
      with assms nf acc show ?thesis
        by (simp add: cb_hall_overflow) (simp add: speed_ok_def)
    qed
  qed
qed

subsection \<open>Draining\<close>

text \<open>
  The loop of \<open>avg\<close> reads the buffer without raising, empties the pending count and
  leaves the write index alone; so does the loop of \<open>get_avg\<close>.
\<close>

lemma spark_loop_ok:
  "rpm_ok s \<Longrightarrow>
     (\<exists>total. fst (spark_loop s acc) = Inr total) \<and> rpm_ok (snd (spark_loop s acc)) \<and>
     spark_write_index (snd (spark_loop s acc)) = spark_write_index s \<and>
     spark_count (snd (spark_loop s acc)) = 0"
proof (induction s acc rule: spark_loop.induct)
  case (1 s acc)
  show ?case
  proof (cases "spark_count s = 0")
    case True
    with "1.prems" show ?thesis by (simp add: spark_loop.simps)
  next
    case False
    let ?latest = "sparks s ! nat (spark_read_index s)"
    let ?s' = "s\<lparr>spark_count := spark_count s - 1,
                 spark_read_index := (spark_read_index s + 1) mod Rpm_ARRAYSIZE,
                 prev_spark_ms := ?latest\<rparr>"
    from "1.prems" have g: "array_get (sparks s) (spark_read_index s) = Inr ?latest"
      by (simp add: rpm_ok_def array_get_in_range)
    from "1.prems" have ok': "rpm_ok ?s'"
      by (simp add: rpm_ok_def Rpm_ARRAYSIZE_def)
    have unf: "spark_loop s acc =
        spark_loop ?s' (acc + ticks_diff ?latest (prev_spark_ms s))"
      using False g by (subst spark_loop.simps) simp
    from "1.IH" [OF False g ok'] show ?thesis
      by (simp add: unf)
  qed
qed

lemma avg_ok:
  assumes "rpm_ok s"
  shows "rpm_ok (snd (avg s)) \<and> spark_write_index (snd (avg s)) = spark_write_index s"
proof (cases "spark_count s > 0")
  case False
  with assms show ?thesis by (simp add: avg_def)
next
  case True
  from spark_loop_ok [OF assms, of 0] obtain total where
    t: "fst (spark_loop s 0) = Inr total" and
    r: "rpm_ok (snd (spark_loop s 0))"
       "spark_write_index (snd (spark_loop s 0)) = spark_write_index s"
    by blast
  have snd_avg: "snd (avg s) = snd (spark_loop s 0)"
    using True t
    by (cases "spark_loop s 0") (simp add: avg_def Let_def split: sum.splits)
  show ?thesis using r by (simp add: snd_avg)
qed

lemma hall_loop_ok:
  "speed_ok s \<Longrightarrow>
     (\<exists>total. fst (hall_loop s acc) = Inr total) \<and> speed_ok (snd (hall_loop s acc)) \<and>
     hall_write_index (snd (hall_loop s acc)) = hall_write_index s \<and>
     hall_count (snd (hall_loop s acc)) = 0"
proof (induction s acc rule: hall_loop.induct)
  case (1 s acc)
  show ?case
  proof (cases "hall_count s = 0")
    case True
    with "1.prems" show ?thesis by (simp add: hall_loop.simps)
  next
    case False
    let ?latest = "halls s ! nat (hall_read_index s)"
    let ?s' = "s\<lparr>hall_count := hall_count s - 1,
                 hall_read_index := (hall_read_index s + 1) mod Speed_ARRAYSIZE,
                 prev_hall_ms := ?latest\<rparr>"
    from "1.prems" have g: "array_get (halls s) (hall_read_index s) = Inr ?latest"
      by (simp add: speed_ok_def array_get_in_range)
    from "1.prems" have ok': "speed_ok ?s'"
      by (simp add: speed_ok_def Speed_ARRAYSIZE_def)
    have unf: "hall_loop s acc =
        hall_loop ?s' (acc + ticks_diff ?latest (prev_hall_ms s))"
      using False g by (subst hall_loop.simps) simp
    from "1.IH" [OF False g ok'] show ?thesis
      by (simp add: unf)
  qed
qed

lemma get_avg_ok:
  assumes "speed_ok s"
  shows "speed_ok (snd (get_avg s)) \<and>
         hall_write_index (snd (get_avg s)) = hall_write_index s"
proof (cases "hall_count s > 0")
  case False
  with assms show ?thesis by (simp add: get_avg_def speed_ok_def)
next
  case True
  from hall_loop_ok [OF assms, of 0] obtain total where
    t: "fst (hall_loop s 0) = Inr total" and
    r: "speed_ok (snd (hall_loop s 0))"
       "hall_write_index (snd (hall_loop s 0)) = hall_write_index s"
    by blast
  have snd_avg: "snd (get_avg s) = snd (hall_loop s 0)"
    using True t
    by (cases "hall_loop s 0") (simp add: get_avg_def Let_def split: sum.splits)
  show ?thesis using r by (simp add: snd_avg)
qed

subsection \<open>Any sequence of interrupts and drains\<close>

lemma Rpm_init_ok: "rpm_ok Rpm_init"
  by (simp add: rpm_ok_def Rpm_init_def Rpm_ARRAYSIZE_def)

lemma Speed_fields_ok: "speed_ok (Speed_fields d)"
  by (simp add: speed_ok_def Speed_fields_def Speed_ARRAYSIZE_def)

lemma rpm_run_ok:
  "rpm_ok s \<Longrightarrow>
     rpm_ok (rpm_run es s) \<and>
     (spark_write_index (rpm_run es s) = -1) =
       (spark_write_index s = -1 \<and> (\<forall>e\<in>set es. e = Drain))"
proof (induction es arbitrary: s)
  case Nil
  then show ?case by simp
next
  case (Cons e es)
  show ?case
  proof (cases e)
    case (Edge t)
    from cb_spark_ok [OF Cons.prems, of t] have
      ok: "rpm_ok (snd (cb_spark t s))" and w: "0 \<le> spark_write_index (snd (cb_spark t s))"
      by simp_all
    from Cons.IH [OF ok] w show ?thesis
      by (simp add: Edge)
  next
    case Drain
    from avg_ok [OF Cons.prems] have
      ok: "rpm_ok (snd (avg s))" and w: "spark_write_index (snd (avg s)) = spark_write_index s"
      by simp_all
    from Cons.IH [OF ok] w show ?thesis
      by (simp add: Drain)
  qed
qed

lemma speed_run_ok:
  "speed_ok s \<Longrightarrow>
     speed_ok (speed_run es s) \<and>
     (hall_write_index (speed_run es s) = -1) =
       (hall_write_index s = -1 \<and> (\<forall>e\<in>set es. e = Drain))"
proof (induction es arbitrary: s)
  case Nil
  then show ?case by simp
next
  case (Cons e es)
  show ?case
  proof (cases e)
    case (Edge t)
    from cb_hall_ok [OF Cons.prems, of t] have
      ok: "speed_ok (snd (cb_hall t s))" and w: "0 \<le> hall_write_index (snd (cb_hall t s))"
      by simp_all
    from Cons.IH [OF ok] w show ?thesis
      by (simp add: Edge)
  next
    case Drain
    from get_avg_ok [OF Cons.prems] have
      ok: "speed_ok (snd (get_avg s))" and
      w: "hall_write_index (snd (get_avg s)) = hall_write_index s"
      by simp_all
    from Cons.IH [OF ok] w show ?thesis
      by (simp add: Drain)
  qed
qed

text \<open>
  Claim C3, as the code has it. After any sequence of interrupts and drains on a new
  meter (\<open>Rpm()\<close>, or \<open>Speed\<close> with any tick distance), the read index is within
  \<open>[0, ARRAYSIZE)\<close>; the write index is -1 as long as no interrupt has come and within
  \<open>[0, ARRAYSIZE)\<close> from the first interrupt on. Nothing is said here of the pending
  count.
\<close>

theorem meter_indices_in_range:
  "(let s = rpm_run es Rpm_init in
      0 \<le> spark_read_index s \<and> spark_read_index s < Rpm_ARRAYSIZE \<and>
      -1 \<le> spark_write_index s \<and> spark_write_index s < Rpm_ARRAYSIZE \<and>
      (spark_write_index s = -1) = (\<forall>e\<in>set es. e = Drain)) \<and>
   (let s = speed_run es (Speed_fields d) in
      0 \<le> hall_read_index s \<and> hall_read_index s < Speed_ARRAYSIZE \<and>
      -1 \<le> hall_write_index s \<and> hall_write_index s < Speed_ARRAYSIZE \<and>
      (hall_write_index s = -1) = (\<forall>e\<in>set es. e = Drain))"
proof -
  have r: "rpm_ok (rpm_run es Rpm_init)"
    "(spark_write_index (rpm_run es Rpm_init) = -1) = (\<forall>e\<in>set es. e = Drain)"
    using rpm_run_ok [OF Rpm_init_ok, of es] by (simp_all add: Rpm_init_def)
  have h: "speed_ok (speed_run es (Speed_fields d))"
    "(hall_write_index (speed_run es (Speed_fields d)) = -1) = (\<forall>e\<in>set es. e = Drain)"
    using speed_run_ok [OF Speed_fields_ok, of es d] by (simp_all add: Speed_fields_def)
  from r h show ?thesis
    by (simp add: Let_def rpm_ok_def speed_ok_def)
qed

text \<open>
  Claim C3 on two sequences: an interrupt, a drain, another interrupt, where the write
  index is no longer -1; and a lone drain, where it still is.
\<close>

theorem meter_indices_in_range_witness:
  "spark_read_index (rpm_run [Edge 0, Drain, Edge 7] Rpm_init) < Rpm_ARRAYSIZE \<and>
   0 \<le> spark_write_index (rpm_run [Edge 0, Drain, Edge 7] Rpm_init) \<and>
   spark_write_index (rpm_run [Edge 0, Drain, Edge 7] Rpm_init) < Rpm_ARRAYSIZE \<and>
   hall_read_index (speed_run [Edge 0, Drain, Edge 7] (Speed_fields 298)) < Speed_ARRAYSIZE \<and>
   0 \<le> hall_write_index (speed_run [Edge 0, Drain, Edge 7] (Speed_fields 298)) \<and>
   hall_write_index (speed_run [Edge 0, Drain, Edge 7] (Speed_fields 298)) < Speed_ARRAYSIZE \<and>
   spark_write_index (rpm_run [Drain] Rpm_init) = -1 \<and>
   hall_write_index (speed_run [Drain] (Speed_fields 298)) = -1"
  using meter_indices_in_range [of "[Edge 0, Drain, Edge 7]" 298]
    meter_indices_in_range [of "[Drain]" 298]
  by (simp add: Let_def)

text \<open>
  Claim C3 as stated fails twice. With no event at all the write index is -1, outside
  \<open>[0, ARRAYSIZE)\<close>. And \<open>ARRAYSIZE + 1\<close> interrupts, each later than the bounce
  threshold after the one before and with no drain between, leave a pending count of
  \<open>ARRAYSIZE + 1\<close>: 21 on \<open>Rpm\<close> (edges every 5 ms), 11 on \<open>Speed\<close> (every 40 ms).
\<close>

theorem meter_count_and_write_index_counterexample:
  "spark_write_index (rpm_run [] Rpm_init) = -1 \<and>
   \<not> 0 \<le> spark_write_index (rpm_run [] Rpm_init) \<and>
   spark_count (rpm_run (edges_from 0 5 21) Rpm_init) = 21 \<and>
   \<not> int (spark_count (rpm_run (edges_from 0 5 21) Rpm_init)) \<le> Rpm_ARRAYSIZE \<and>
   hall_write_index (speed_run [] (Speed_fields 298)) = -1 \<and>
   \<not> 0 \<le> hall_write_index (speed_run [] (Speed_fields 298)) \<and>
   hall_count (speed_run (edges_from 0 40 11) (Speed_fields 298)) = 11 \<and>
   \<not> int (hall_count (speed_run (edges_from 0 40 11) (Speed_fields 298))) \<le> Speed_ARRAYSIZE"
  by code_simp

subsection \<open>Overflow\<close>

text \<open>
  Claim C4, evaluated. The handler tests \<open>spark_count <= ARRAYSIZE\<close> before it
  stores: the edge that arrives when \<open>ARRAYSIZE\<close> events are pending is stored too. On
  a new \<open>Rpm\<close>, 21 edges 5 ms apart leave the overflow counter at 0 and 21 events
  pending; the counter is 1 after 22 edges and 2 after 23. On a new \<open>Speed\<close>, 11 edges
  40 ms apart leave it at 0, 12 edges at 1, 13 edges at 2.
\<close>

theorem overflow_counted_one_edge_late:
  "spark_overflow (rpm_run (edges_from 0 5 21) Rpm_init) = 0 \<and>
   spark_count (rpm_run (edges_from 0 5 21) Rpm_init) = 21 \<and>
   spark_overflow (rpm_run (edges_from 0 5 22) Rpm_init) = 1 \<and>
   spark_overflow (rpm_run (edges_from 0 5 23) Rpm_init) = 2 \<and>
   hall_overflow (speed_run (edges_from 0 40 11) (Speed_fields 298)) = 0 \<and>
   hall_count (speed_run (edges_from 0 40 11) (Speed_fields 298)) = 11 \<and>
   hall_overflow (speed_run (edges_from 0 40 12) (Speed_fields 298)) = 1 \<and>
   hall_overflow (speed_run (edges_from 0 40 13) (Speed_fields 298)) = 2"
  by code_simp

subsection \<open>Averages\<close>

text \<open>
  On a meter whose buffer and indices are in order, \<open>avg\<close> can raise nothing but
  \<open>ZeroDivisionError\<close>, and raises it exactly when the intervals it summed add up
  to 0.
\<close>

lemma avg_raises_iff_zero_sum:
  assumes "rpm_ok s" "0 < spark_count s"
  shows "(\<exists>e. fst (avg s) = Inl e) = (fst (spark_loop s 0) = Inr 0) \<and>
         (fst (avg s) = Inl e \<longrightarrow> e = ZeroDivisionError)"
proof -
  from spark_loop_ok [OF assms(1), of 0] obtain total where
    t: "fst (spark_loop s 0) = Inr total"
    by blast
  obtain s' where l: "spark_loop s 0 = (Inr total, s')"
    using t by (cases "spark_loop s 0") simp
  show ?thesis
    using assms(2) by (auto simp: avg_def l truediv_def Let_def)
qed

text \<open>
  Claim C2, evaluated. The first interrupt of a new \<open>Rpm\<close> comes when the clock reads
  0. One event is pending, \<open>avg\<close> passes its test \<open>spark_count > 0\<close>, the interval
  to the initial \<open>prev_spark_ms = 0\<close> is 0, the average interval is \<open>0 / 1\<close>, and the
  division by it raises \<open>ZeroDivisionError\<close>. \<open>Speed.get_avg\<close> does the same.
\<close>

theorem avg_first_edge_at_zero_raises:
  "fst (cb_spark 0 Rpm_init) = Inr () \<and>
   spark_count (snd (cb_spark 0 Rpm_init)) = 1 \<and>
   fst (avg (snd (cb_spark 0 Rpm_init))) = Inl ZeroDivisionError \<and>
   fst (cb_hall 0 (Speed_fields 298)) = Inr () \<and>
   hall_count (snd (cb_hall 0 (Speed_fields 298))) = 1 \<and>
   fst (get_avg (snd (cb_hall 0 (Speed_fields 298)))) = Inl ZeroDivisionError"
  by code_simp



subsection \<open>The bounce filter\<close>

text \<open>
  Two interrupts on a new meter, the second no later than the threshold after the
  first: the meter afterwards, field by field.
\<close>

lemma rpm_two_close_edges:
  assumes "ticks_diff t2 t1 \<le> 4"
  shows "rpm_run [Edge t1, Edge t2] Rpm_init =
     Rpm_init\<lparr>this_spark_ms := t2, spark_write_index := 0,
               sparks := (sparks Rpm_init)[0 := t1], spark_count := 1,
               spark_disqualified := 1\<rparr>"
proof -
  let ?s1 = "Rpm_init\<lparr>this_spark_ms := t1, spark_write_index := 0,
               sparks := (sparks Rpm_init)[0 := t1],
               spark_count := spark_count Rpm_init + 1\<rparr>"
  have w0: "spark_write_index Rpm_init = -1"
    by (simp add: Rpm_init_def)
  have first: "cb_spark t1 Rpm_init = (Inr (), ?s1)"
    by (rule cb_spark_first [OF Rpm_init_ok w0])
  have ok1: "rpm_ok ?s1"
    using cb_spark_ok [OF Rpm_init_ok, of t1] by (simp add: first)
  have slot: "sparks ?s1 ! nat (spark_write_index ?s1) = t1"
    by (simp add: Rpm_init_def Rpm_ARRAYSIZE_def)
  have second: "cb_spark t2 ?s1 =
      (Inr (), ?s1\<lparr>this_spark_ms := t2, spark_disqualified := spark_disqualified ?s1 + 1\<rparr>)"
    by (rule cb_spark_bounce [OF ok1]) (simp_all only: slot assms, simp)
  have "rpm_run [Edge t1, Edge t2] Rpm_init = snd (cb_spark t2 (snd (cb_spark t1 Rpm_init)))"
    by simp
  also have "\<dots> = ?s1\<lparr>this_spark_ms := t2, spark_disqualified := spark_disqualified ?s1 + 1\<rparr>"
    by (simp only: first second snd_conv)
  finally show ?thesis
    by (simp add: Rpm_init_def)
qed

lemma speed_two_close_edges:
  assumes "ticks_diff t2 t1 \<le> 36"
  shows "speed_run [Edge t1, Edge t2] (Speed_fields d) =
     (Speed_fields d)\<lparr>this_hall_ms := t2, hall_total := 1, hall_write_index := 0,
               halls := (halls (Speed_fields d))[0 := t1], hall_count := 1,
               hall_disqualified := 1\<rparr>"
proof -
  let ?s0 = "Speed_fields d"
  let ?s1 = "?s0\<lparr>this_hall_ms := t1, hall_total := hall_total ?s0 + 1,
               hall_write_index := 0, halls := (halls ?s0)[0 := t1],
               hall_count := hall_count ?s0 + 1\<rparr>"
  have w0: "hall_write_index ?s0 = -1"
    by (simp add: Speed_fields_def)
  have first: "cb_hall t1 ?s0 = (Inr (), ?s1)"
    by (rule cb_hall_first [OF Speed_fields_ok w0])
  have ok1: "speed_ok ?s1"
    using cb_hall_ok [OF Speed_fields_ok, of t1 d] by (simp add: first)
  have slot: "halls ?s1 ! nat (hall_write_index ?s1) = t1"
    by (simp add: Speed_fields_def Speed_ARRAYSIZE_def)
  have second: "cb_hall t2 ?s1 =
      (Inr (), ?s1\<lparr>this_hall_ms := t2, hall_disqualified := hall_disqualified ?s1 + 1\<rparr>)"
    by (rule cb_hall_bounce [OF ok1]) (simp_all only: slot assms, simp)
  have "speed_run [Edge t1, Edge t2] ?s0 = snd (cb_hall t2 (snd (cb_hall t1 ?s0)))"
    by simp
  also have "\<dots> = ?s1\<lparr>this_hall_ms := t2, hall_disqualified := hall_disqualified ?s1 + 1\<rparr>"
    by (simp only: first second snd_conv)
  finally show ?thesis
    by (simp add: Speed_fields_def)
qed

text \<open>
  Claim C7. The handler measures an edge against the time stamp in the write slot, the
  last edge it stored. When the difference \<open>ticks_diff\<close> gives is at most the
  threshold (4 ms for \<open>Rpm\<close>, 36 ms for \<open>Speed\<close>; equality included), the handler
  only records the clock reading and adds one to the disqualified counter: the edge is
  not stored, and the pending count, the indices, the overflow counter and, on
  \<open>Speed\<close>, the running total are as before. So two such edges on a new meter leave
  one pending event, the first, and a disqualified counter of 1.
\<close>

theorem bounce_boundary_exclusive:
  "(rpm_ok s \<and> spark_write_index s \<noteq> -1 \<and>
    ticks_diff t (sparks s ! nat (spark_write_index s)) \<le> 4 \<longrightarrow>
      cb_spark t s =
        (Inr (), s\<lparr>this_spark_ms := t, spark_disqualified := spark_disqualified s + 1\<rparr>)) \<and>
   (ticks_diff t2 t1 \<le> 4 \<longrightarrow>
      (let s = rpm_run [Edge t1, Edge t2] Rpm_init in
         spark_count s = 1 \<and> spark_disqualified s = 1 \<and> spark_overflow s = 0 \<and>
         spark_write_index s = 0 \<and> sparks s ! 0 = t1)) \<and>
   (speed_ok h \<and> hall_write_index h \<noteq> -1 \<and>
    ticks_diff u (halls h ! nat (hall_write_index h)) \<le> 36 \<longrightarrow>
      cb_hall u h =
        (Inr (), h\<lparr>this_hall_ms := u, hall_disqualified := hall_disqualified h + 1\<rparr>)) \<and>
   (ticks_diff u2 u1 \<le> 36 \<longrightarrow>
      (let h = speed_run [Edge u1, Edge u2] (Speed_fields d) in
         hall_count h = 1 \<and> hall_disqualified h = 1 \<and> hall_overflow h = 0 \<and>
         hall_write_index h = 0 \<and> halls h ! 0 = u1 \<and> hall_total h = 1))"
proof (intro conjI impI)
  assume "rpm_ok s \<and> spark_write_index s \<noteq> -1 \<and>
    ticks_diff t (sparks s ! nat (spark_write_index s)) \<le> 4"
  then show "cb_spark t s =
        (Inr (), s\<lparr>this_spark_ms := t, spark_disqualified := spark_disqualified s + 1\<rparr>)"
    by (simp add: cb_spark_bounce)
next
  assume "ticks_diff t2 t1 \<le> 4"
  then show "let s = rpm_run [Edge t1, Edge t2] Rpm_init in
         spark_count s = 1 \<and> spark_disqualified s = 1 \<and> spark_overflow s = 0 \<and>
         spark_write_index s = 0 \<and> sparks s ! 0 = t1"
    by (simp only: rpm_two_close_edges Let_def) (simp add: Rpm_init_def Rpm_ARRAYSIZE_def)
next
  assume "speed_ok h \<and> hall_write_index h \<noteq> -1 \<and>
    ticks_diff u (halls h ! nat (hall_write_index h)) \<le> 36"
  then show "cb_hall u h =
        (Inr (), h\<lparr>this_hall_ms := u, hall_disqualified := hall_disqualified h + 1\<rparr>)"
    by (simp add: cb_hall_bounce)
next
  assume "ticks_diff u2 u1 \<le> 36"
  then show "let h = speed_run [Edge u1, Edge u2] (Speed_fields d) in
         hall_count h = 1 \<and> hall_disqualified h = 1 \<and> hall_overflow h = 0 \<and>
         hall_write_index h = 0 \<and> halls h ! 0 = u1 \<and> hall_total h = 1"
    by (simp only: speed_two_close_edges Let_def)
       (simp add: Speed_fields_def Speed_ARRAYSIZE_def)
qed

text \<open>
  Claim C7 at the boundary: hall edges at 100 and 136 ms, exactly 36 ms apart, and
  spark edges at 0 and 4 ms.
\<close>

theorem bounce_boundary_exclusive_witness:
  "ticks_diff 136 100 = 36 \<and>
   hall_count (speed_run [Edge 100, Edge 136] (Speed_fields 298)) = 1 \<and>
   hall_disqualified (speed_run [Edge 100, Edge 136] (Speed_fields 298)) = 1 \<and>
   ticks_diff 4 0 = 4 \<and>
   spark_count (rpm_run [Edge 0, Edge 4] Rpm_init) = 1 \<and>
   spark_disqualified (rpm_run [Edge 0, Edge 4] Rpm_init) = 1"
proof -
  have d1: "ticks_diff 136 100 = 36" and d2: "ticks_diff 4 0 = 4"
    by (simp_all add: ticks_diff_small)
  from d1 d2
    bounce_boundary_exclusive [where ?t1.0 = 0 and ?t2.0 = 4 and ?u1.0 = 100
      and ?u2.0 = 136 and d = 298]
  show ?thesis by (simp add: Let_def)
qed

section \<open>The button\<close>

text \<open>
  Claim C8. \<open>pressed()\<close> returns -1 and leaves the button as it is, the press count
  included, while \<open>button_waiting_more_clicks\<close> is set; otherwise it returns the press
  count and sets it to zero, changing nothing else.
\<close>

theorem pressed_sentinel_or_count:
  "(button_waiting_more_clicks s \<longrightarrow> pressed s = (-1, s)) \<and>
   (\<not> button_waiting_more_clicks s \<longrightarrow>
      pressed s = (button_press_count s, s\<lparr>button_press_count := 0\<rparr>))"
  by (simp add: pressed_def)

text \<open>
  Claim C8 at two buttons: one whose press the debounce timer has just confirmed
  (the burst is being counted), and an idle one with two presses counted.
\<close>

theorem pressed_sentinel_or_count_witness:
  "button_waiting_more_clicks (cb_button_debounce BUTTON_DOWN Button_init) \<and>
   pressed (cb_button_debounce BUTTON_DOWN Button_init) =
     (-1, cb_button_debounce BUTTON_DOWN Button_init) \<and>
   \<not> button_waiting_more_clicks (Button_init\<lparr>button_press_count := 2\<rparr>) \<and>
   pressed (Button_init\<lparr>button_press_count := 2\<rparr>) = (2, Button_init)"
  using pressed_sentinel_or_count [of "cb_button_debounce BUTTON_DOWN Button_init"]
    pressed_sentinel_or_count [of "Button_init\<lparr>button_press_count := 2\<rparr>"]
  by (simp add: cb_button_debounce_def Button_init_def)

text \<open>
  A burst sample that reads the button down after a sample that read it down changes
  nothing: \<open>cb_button_series\<close> counts a click only when the previous sample was up.
\<close>

lemma series_down_held:
  "button_series_click_prev_value s = BUTTON_DOWN \<Longrightarrow>
   cb_button_series BUTTON_DOWN s = s"
  by (simp add: cb_button_series_def button_consts)

lemma series_down_held_funpow:
  "button_series_click_prev_value s = BUTTON_DOWN \<Longrightarrow>
   (cb_button_series BUTTON_DOWN ^^ n) s = s"
  by (induction n) (simp_all add: series_down_held)

lemma debounce_down_prev:
  "button_series_click_prev_value (cb_button_debounce BUTTON_DOWN s) = BUTTON_DOWN"
  by (simp add: cb_button_debounce_def)

text \<open>
  Claim C6, as the code has it. From any button, a press confirmed by the debounce
  timeout, then the button held down through \<open>n\<close> burst samples (three for \<open>n = 3\<close>),
  then released: the next two samples read it up and the second ends the burst. The
  \<open>pressed()\<close> that follows returns 1: the samples taken while the button is held add
  no click.
\<close>

theorem hold_counts_one_click:
  "fst (pressed (cb_button_series BUTTON_UP (cb_button_series BUTTON_UP
     ((cb_button_series BUTTON_DOWN ^^ n) (cb_button_debounce BUTTON_DOWN s))))) = 1 \<and>
   fst (pressed (cb_button_series BUTTON_UP (cb_button_series BUTTON_UP
     (cb_button_series BUTTON_DOWN (cb_button_series BUTTON_DOWN
       (cb_button_series BUTTON_DOWN (cb_button_debounce BUTTON_DOWN s))))))) = 1"
  by (simp add: series_down_held_funpow series_down_held debounce_down_prev)
     (simp add: cb_button_series_def cb_button_debounce_def pressed_def button_consts)

text \<open>
  Claim C6 as stated fails. On a new button: the pin interrupt at time 0, the debounce
  timeout with the button down, three burst samples with the button down, two with it
  up; \<open>pressed()\<close> then does not return 3.
\<close>

theorem hold_three_samples_counterexample:
  "fst (pressed (cb_button_series BUTTON_UP (cb_button_series BUTTON_UP
     (cb_button_series BUTTON_DOWN (cb_button_series BUTTON_DOWN
       (cb_button_series BUTTON_DOWN
         (cb_button_debounce BUTTON_DOWN (cb_button 0 Button_init)))))))) \<noteq> 3"
  by (simp add: cb_button_series_def cb_button_debounce_def cb_button_def pressed_def
      Button_init_def button_consts)

section \<open>The limiter\<close>

text \<open>
  Claim C10. \<open>Limiter(pin, mode)\<close> with \<open>mode\<close> equal to \<open>LIMITED\<close> or \<open>LIMP\<close>
  raises \<open>TypeError\<close>; whenever the constructor returns a limiter, its mode is
  \<open>UNLIMITED\<close> and its output is the pin in output mode, switched off.
\<close>

theorem Limiter_init_mode_arg:
  "(mode_arg = Some LIMITED \<or> mode_arg = Some LIMP \<longrightarrow>
      Limiter_init p mode_arg = Inl TypeError) \<and>
   (Limiter_init p mode_arg = Inr l \<longrightarrow>
      mode l = UNLIMITED \<and> ign l = Pin_OUT p False)"
  by (auto simp: Limiter_init_def call_bound_def Let_def split: option.splits if_splits)

text \<open>
  Claim C10 at pin 15: both mode arguments raise, and \<open>Limiter()\<close> is the unlimited
  limiter of \<open>show\<close>.
\<close>

theorem Limiter_init_mode_arg_witness:
  "Limiter_init 15 (Some LIMITED) = Inl TypeError \<and>
   Limiter_init 15 (Some LIMP) = Inl TypeError \<and>
   Limiter_init 15 None = Inr Limiter_default \<and>
   mode Limiter_default = UNLIMITED \<and>
   ign Limiter_default = Pin_OUT 15 False"
  using Limiter_init_mode_arg [of "Some LIMITED" 15]
    Limiter_init_mode_arg [of "Some LIMP" 15]
    Limiter_init_mode_arg [of None 15 Limiter_default]
  by (simp add: Limiter_init_def Limiter_default_def Let_def)

text \<open>
  Claim C1, evaluated. The second \<open>if\<close> statement of the cycle runs after the first
  has changed the limiter, and tests the mode read before. From \<open>UNLIMITED\<close> with
  \<open>rpm_avg = 7500\<close> the cycle calls \<open>limp()\<close> and then \<open>limit()\<close>: two
  transitions, ending in \<open>LIMITED\<close>. From \<open>LIMP\<close> with both readings 0 (below both
  low limits) it calls \<open>free()\<close> and then \<open>limit()\<close>, ending in \<open>LIMITED\<close>, not
  \<open>UNLIMITED\<close>.
\<close>

theorem show_limiter_two_transitions:
  "limp Limiter_default = Inr Limiter_limping \<and>
   limit Limiter_limping = Inr Limiter_limited \<and>
   show_limiter Limiter_default 7500 0 = Inr Limiter_limited \<and>
   free Limiter_limping = Inr Limiter_default \<and>
   limit Limiter_default = Inr Limiter_limited \<and>
   show_limiter Limiter_limping 0 0 = Inr Limiter_limited \<and>
   mode Limiter_limited = LIMITED \<and> LIMITED \<noteq> LIMP \<and> LIMITED \<noteq> UNLIMITED"
  by (simp add: show_limiter_def limp_def limit_def free_def get_mode_def ign_freq_def
      ign_duty_def ign_deinit_def Limiter_default_def Limiter_limited_def
      Limiter_limping_def limiter_consts)

text \<open>
  Steps of the cycle that the sweep of the rate is made of.
\<close>

lemma limit_from_unlimited:
  "mode l = UNLIMITED \<Longrightarrow>
   limit l = Inr (l\<lparr>ign := PWM (pin l) (Some FREQ) (Some LIMIT_DUTY), mode := LIMITED\<rparr>)"
  by (simp add: limit_def ign_freq_def ign_duty_def)

lemma show_limiter_stays_unlimited:
  "mode l = UNLIMITED \<Longrightarrow> rpm_avg \<le> LIMIT_RPM_HIGH \<Longrightarrow> kmh \<le> LIMIT_SPEED_HIGH \<Longrightarrow>
   show_limiter l rpm_avg kmh = Inr l"
  by (simp add: show_limiter_def get_mode_def limiter_consts)

lemma show_limiter_unlimited_to_limited:
  "mode l = UNLIMITED \<Longrightarrow> LIMIT_RPM_HIGH < rpm_avg \<Longrightarrow> rpm_avg \<le> LIMP_RPM_HIGH \<Longrightarrow>
   kmh \<le> LIMP_SPEED_HIGH \<Longrightarrow>
   show_limiter l rpm_avg kmh =
     Inr (l\<lparr>ign := PWM (pin l) (Some FREQ) (Some LIMIT_DUTY), mode := LIMITED\<rparr>)"
  by (simp add: show_limiter_def get_mode_def limit_from_unlimited limiter_consts)

lemma show_limiter_stays_limited:
  "mode l = LIMITED \<Longrightarrow> \<not> (rpm_avg < LIMIT_RPM_LOW \<and> kmh < LIMIT_SPEED_LOW) \<Longrightarrow>
   rpm_avg \<le> LIMP_RPM_HIGH \<Longrightarrow> kmh \<le> LIMP_SPEED_HIGH \<Longrightarrow>
   show_limiter l rpm_avg kmh = Inr l"
  by (auto simp: show_limiter_def get_mode_def UNLIMITED_def LIMITED_def LIMP_def)

lemma limiter_run_stays_limited:
  "mode l = LIMITED \<Longrightarrow>
   \<forall>x\<in>set xs. \<not> (fst x < LIMIT_RPM_LOW \<and> snd x < LIMIT_SPEED_LOW) \<and>
              fst x \<le> LIMP_RPM_HIGH \<and> snd x \<le> LIMP_SPEED_HIGH \<Longrightarrow>
   limiter_run l xs = Inr (replicate (length xs) l)"
  by (induction xs) (simp_all add: show_limiter_stays_limited)

lemma limiter_run_sweep:
  "mode l = UNLIMITED \<Longrightarrow> sorted (map fst xs) \<Longrightarrow>
   \<forall>x\<in>set xs. fst x \<le> LIMP_RPM_HIGH \<and> snd x \<le> LIMIT_SPEED_HIGH \<Longrightarrow>
   limiter_run l xs =
     Inr (replicate (length (takeWhile (\<lambda>x. fst x \<le> LIMIT_RPM_HIGH) xs)) l @
          replicate (length xs - length (takeWhile (\<lambda>x. fst x \<le> LIMIT_RPM_HIGH) xs))
            (l\<lparr>ign := PWM (pin l) (Some FREQ) (Some LIMIT_DUTY), mode := LIMITED\<rparr>))"
proof (induction xs)
  case Nil
  then show ?case by simp
next
  case (Cons x xs)
  let ?l' = "l\<lparr>ign := PWM (pin l) (Some FREQ) (Some LIMIT_DUTY), mode := LIMITED\<rparr>"
  from Cons.prems have x: "fst x \<le> LIMP_RPM_HIGH" "snd x \<le> LIMIT_SPEED_HIGH"
    and rest: "\<forall>y\<in>set xs. fst y \<le> LIMP_RPM_HIGH \<and> snd y \<le> LIMIT_SPEED_HIGH"
    and srt: "sorted (map fst xs)" and ge: "\<forall>y\<in>set xs. fst x \<le> fst y"
    by auto
  show ?case
  proof (cases "fst x \<le> LIMIT_RPM_HIGH")
    case True
    have step: "show_limiter l (fst x) (snd x) = Inr l"
      using Cons.prems(1) True x by (simp add: show_limiter_stays_unlimited)
    from Cons.IH [OF Cons.prems(1) srt rest] show ?thesis
      using True by (simp add: step)
  next
    case False
    have step: "show_limiter l (fst x) (snd x) = Inr ?l'"
      using Cons.prems(1) False x
      by (intro show_limiter_unlimited_to_limited) (simp_all add: limiter_consts)
    have "\<forall>y\<in>set xs. \<not> (fst y < LIMIT_RPM_LOW \<and> snd y < LIMIT_SPEED_LOW) \<and>
              fst y \<le> LIMP_RPM_HIGH \<and> snd y \<le> LIMP_SPEED_HIGH"
      using False ge rest by (fastforce simp: limiter_consts)
    then have "limiter_run ?l' xs = Inr (replicate (length xs) ?l')"
      by (intro limiter_run_stays_limited) simp_all
    then show ?thesis
      using False by (simp add: step)
  qed
qed

lemma takeWhile_crosses:
  "\<exists>x\<in>set xs. \<not> P x \<Longrightarrow> length (takeWhile P xs) < length xs"
  by (induction xs) auto

lemma show_limiter_to_unlimited_only_if:
  assumes "mode l \<noteq> UNLIMITED" "show_limiter l rpm_avg kmh = Inr l'" "mode l' = UNLIMITED"
  shows "rpm_avg < LIMIT_RPM_LOW \<and> kmh < LIMIT_SPEED_LOW"
proof (rule ccontr)
  assume n: "\<not> (rpm_avg < LIMIT_RPM_LOW \<and> kmh < LIMIT_SPEED_LOW)"
  have limp_mode: "\<And>a b. limp a = Inr b \<Longrightarrow> mode b = LIMP"
    by (auto simp: limp_def split: sum.splits if_splits)
  have limit_mode: "\<And>a b. limit a = Inr b \<Longrightarrow> mode b = LIMITED"
    by (auto simp: limit_def split: sum.splits if_splits)
  from assms n show False
    by (auto simp: show_limiter_def get_mode_def Let_def UNLIMITED_def LIMITED_def LIMP_def
        split: sum.splits if_splits dest!: limp_mode limit_mode)
qed

lemma show_limiter_limited_to_unlimited:
  "rpm_avg < LIMIT_RPM_LOW \<Longrightarrow> kmh < LIMIT_SPEED_LOW \<Longrightarrow>
   show_limiter Limiter_limited rpm_avg kmh = Inr Limiter_default"
  by (simp add: show_limiter_def get_mode_def free_def ign_deinit_def
      Limiter_limited_def Limiter_default_def UNLIMITED_def LIMITED_def LIMP_def)

lemma limit_default:
  "Limiter_default\<lparr>ign := PWM (pin Limiter_default) (Some FREQ) (Some LIMIT_DUTY),
                   mode := LIMITED\<rparr> = Limiter_limited"
  by (simp add: Limiter_default_def Limiter_limited_def)

text \<open>
  Claim C9. Four parts, on the limiter \<open>show\<close> constructs.
  \<^item> Readings \<open>xs\<close> whose rate never decreases, never exceeds \<open>LIMP_RPM_HIGH\<close> and
    at some cycle exceeds \<open>LIMIT_RPM_HIGH\<close>, with the speed never above
    \<open>LIMIT_SPEED_HIGH\<close>: the limiter is unchanged up to the first cycle whose rate
    exceeds \<open>LIMIT_RPM_HIGH\<close>, becomes the limited one in that cycle, and is the same
    limited one after every later cycle. One transition, \<open>UNLIMITED\<close> to
    \<open>LIMITED\<close>, and no exception.
  \<^item> From any limiter in \<open>LIMITED\<close>, readings \<open>ys\<close> with rate and speed strictly
    between their \<open>LIMIT\<close> lows and highs leave the limiter as it is, cycle after
    cycle.
  \<^item> A cycle that starts in another mode than \<open>UNLIMITED\<close> and ends in
    \<open>UNLIMITED\<close> had both readings below their \<open>LIMIT\<close> lows.
  \<^item> With both readings below their \<open>LIMIT\<close> lows, the limited limiter becomes the
    unlimited one again.
\<close>

theorem limit_hysteresis:
  "(sorted (map fst xs) \<and>
    (\<forall>x\<in>set xs. fst x \<le> LIMP_RPM_HIGH \<and> snd x \<le> LIMIT_SPEED_HIGH) \<and>
    (\<exists>x\<in>set xs. LIMIT_RPM_HIGH < fst x) \<longrightarrow>
      length (takeWhile (\<lambda>x. fst x \<le> LIMIT_RPM_HIGH) xs) < length xs \<and>
      limiter_run Limiter_default xs =
        Inr (replicate (length (takeWhile (\<lambda>x. fst x \<le> LIMIT_RPM_HIGH) xs)) Limiter_default @
             replicate (length xs - length (takeWhile (\<lambda>x. fst x \<le> LIMIT_RPM_HIGH) xs))
               Limiter_limited)) \<and>
   (mode b = LIMITED \<and>
    (\<forall>y\<in>set ys. LIMIT_RPM_LOW < fst y \<and> fst y < LIMIT_RPM_HIGH \<and>
               LIMIT_SPEED_LOW < snd y \<and> snd y < LIMIT_SPEED_HIGH) \<longrightarrow>
      limiter_run b ys = Inr (replicate (length ys) b)) \<and>
   (mode l \<noteq> UNLIMITED \<and> show_limiter l rpm_avg kmh = Inr l' \<and> mode l' = UNLIMITED \<longrightarrow>
      rpm_avg < LIMIT_RPM_LOW \<and> kmh < LIMIT_SPEED_LOW) \<and>
   (rpm_avg < LIMIT_RPM_LOW \<and> kmh < LIMIT_SPEED_LOW \<longrightarrow>
      show_limiter Limiter_limited rpm_avg kmh = Inr Limiter_default)"
proof (intro conjI impI)
  assume a: "sorted (map fst xs) \<and>
    (\<forall>x\<in>set xs. fst x \<le> LIMP_RPM_HIGH \<and> snd x \<le> LIMIT_SPEED_HIGH) \<and>
    (\<exists>x\<in>set xs. LIMIT_RPM_HIGH < fst x)"
  then have "\<exists>x\<in>set xs. \<not> fst x \<le> LIMIT_RPM_HIGH"
    by (auto simp: not_le)
  then show "length (takeWhile (\<lambda>x. fst x \<le> LIMIT_RPM_HIGH) xs) < length xs"
    by (rule takeWhile_crosses)
  have m: "mode Limiter_default = UNLIMITED"
    by (simp add: Limiter_default_def)
  from a limiter_run_sweep [OF m, of xs]
  show "limiter_run Limiter_default xs =
        Inr (replicate (length (takeWhile (\<lambda>x. fst x \<le> LIMIT_RPM_HIGH) xs)) Limiter_default @
             replicate (length xs - length (takeWhile (\<lambda>x. fst x \<le> LIMIT_RPM_HIGH) xs))
               Limiter_limited)"
    by (simp add: limit_default)
next
  assume b: "mode b = LIMITED \<and>
    (\<forall>y\<in>set ys. LIMIT_RPM_LOW < fst y \<and> fst y < LIMIT_RPM_HIGH \<and>
               LIMIT_SPEED_LOW < snd y \<and> snd y < LIMIT_SPEED_HIGH)"
  then have m: "mode b = LIMITED"
    by simp
  from b have "\<forall>x\<in>set ys. \<not> (fst x < LIMIT_RPM_LOW \<and> snd x < LIMIT_SPEED_LOW) \<and>
              fst x \<le> LIMP_RPM_HIGH \<and> snd x \<le> LIMP_SPEED_HIGH"
    by (fastforce simp: limiter_consts)
  then show "limiter_run b ys = Inr (replicate (length ys) b)"
    by (rule limiter_run_stays_limited [OF m])
next
  assume "mode l \<noteq> UNLIMITED \<and> show_limiter l rpm_avg kmh = Inr l' \<and> mode l' = UNLIMITED"
  then show "rpm_avg < LIMIT_RPM_LOW" "kmh < LIMIT_SPEED_LOW"
    using show_limiter_to_unlimited_only_if [of l rpm_avg kmh l'] by simp_all
next
  assume "rpm_avg < LIMIT_RPM_LOW \<and> kmh < LIMIT_SPEED_LOW"
  then show "show_limiter Limiter_limited rpm_avg kmh = Inr Limiter_default"
    by (simp add: show_limiter_limited_to_unlimited)
qed

text \<open>
  Claim C9 on a sweep 5000, 5900, 6100, 6500 rpm at 30 km/h, on readings that move
  between the limits, and on a cycle at 5000 rpm and 30 km/h from \<open>LIMITED\<close>.
\<close>

theorem limit_hysteresis_witness:
  "limiter_run Limiter_default [(5000, 30), (5900, 30), (6100, 30), (6500, 30)] =
     Inr [Limiter_default, Limiter_default, Limiter_limited, Limiter_limited] \<and>
   limiter_run Limiter_limited [(5900, 41), (5990, 41), (5810, 41)] =
     Inr [Limiter_limited, Limiter_limited, Limiter_limited] \<and>
   show_limiter Limiter_limited 5000 30 = Inr Limiter_default \<and>
   mode Limiter_limited \<noteq> UNLIMITED \<and> mode Limiter_default = UNLIMITED"
  using limit_hysteresis [of "[(5000, 30), (5900, 30), (6100, 30), (6500, 30)]"
      Limiter_limited "[(5900, 41), (5990, 41), (5810, 41)]" Limiter_limited 5000 30
      Limiter_default]
  by (simp add: limiter_consts Limiter_limited_def Limiter_default_def)

end
